theory Spec2Isabelle
  imports Complex_Main "HOL-Library.Log_Nat"
begin

section \<open>TypeScript numbers\<close>

text \<open>
  Every value of \<^verbatim>\<open>src/utils/random.ts\<close> has the TypeScript type \<^verbatim>\<open>number\<close>: an
  IEEE-754 binary64 value. A finite binary64 value is a rational number with at most 53
  significant bits, so the model takes \<^typ>\<open>rat\<close> as the carrier and makes every
  arithmetic operator round its exact result to 53 significant bits, ties to the even
  significand, as the hardware does. The rounding \<open>fl\<close> has no exponent range: it does
  not overflow to Infinity, has no subnormal numbers and no NaN, and \<open>-0\<close> is identified
  with \<open>0\<close>. It agrees with binary64 as long as every intermediate result stays below
  \<open>2^1024\<close> in absolute value and is zero or at least \<open>2^-1022\<close>. Every theorem below
  whose conclusion depends on a computed number keeps the states inside the safe integers
  (absolute value below \<open>2^53\<close>), where the largest intermediate result is below
  \<open>2^75\<close>; a bound that is not an integer is required to be a finite binary64 value,
  \<open>is_number\<close>, which does state the exponent range.
\<close>

type_synonym number = rat

definition ilog2 :: "rat \<Rightarrow> int" where
  \<comment> \<open>For \<open>0 < x\<close>: the exponent \<open>k\<close> with \<open>2 powi k \<le> x < 2 powi (k + 1)\<close>.\<close>
  "ilog2 x = (if 1 \<le> x then bitlen \<lfloor>x\<rfloor> - 1 else - bitlen (\<lceil>1 / x\<rceil> - 1))"

definition round_even :: "rat \<Rightarrow> int" where
  \<comment> \<open>The nearest integer; a tie goes to the even neighbour.\<close>
  "round_even z =
     (let f = \<lfloor>z\<rfloor>; r = z - of_int f
      in if r < 1 / 2 then f
         else if 1 / 2 < r then f + 1
         else if even f then f else f + 1)"

definition fl :: "rat \<Rightarrow> number" where
  \<comment> \<open>Rounding to binary64: the significand \<open>x / 2 powi e\<close> lies in \<open>[2^52, 2^53)\<close>.\<close>
  "fl x =
     (if x = 0 then 0
      else let e = ilog2 \<bar>x\<bar> - 52
           in of_int (round_even (x / 2 powi e)) * 2 powi e)"

definition num_mul :: "number \<Rightarrow> number \<Rightarrow> number" where
  "num_mul x y = fl (x * y)"

definition num_add :: "number \<Rightarrow> number \<Rightarrow> number" where
  "num_add x y = fl (x + y)"

definition num_sub :: "number \<Rightarrow> number \<Rightarrow> number" where
  "num_sub x y = fl (x - y)"

definition num_div :: "number \<Rightarrow> number \<Rightarrow> number" where
  "num_div x y = fl (x / y)"

definition trunc :: "rat \<Rightarrow> int" where
  "trunc z = (if 0 \<le> z then \<lfloor>z\<rfloor> else \<lceil>z\<rceil>)"

definition num_rem :: "number \<Rightarrow> number \<Rightarrow> number" where
  \<comment> \<open>The operator \<^verbatim>\<open>%\<close>: the remainder of the division truncated towards zero, so it
      has the sign of the dividend. IEEE-754 computes it without rounding.\<close>
  "num_rem x y = x - y * of_int (trunc (x / y))"

definition math_floor :: "number \<Rightarrow> number" where
  "math_floor x = of_int \<lfloor>x\<rfloor>"


definition tmod :: "int \<Rightarrow> int \<Rightarrow> int" where
  \<comment> \<open>What \<^verbatim>\<open>%\<close> computes on two integers: \<open>num_rem (of_int n) (of_int m) = of_int (tmod n m)\<close>
      for \<open>0 < m\<close>, proved below.\<close>
  "tmod n m = (if 0 \<le> n then n mod m else - ((- n) mod m))"

section \<open>The generator of \<^verbatim>\<open>src/utils/random.ts\<close>\<close>

definition lcg_step :: "number \<Rightarrow> number" where
  \<comment> \<open>Line 8: the right-hand side of the assignment to \<^verbatim>\<open>state\<close>.\<close>
  "lcg_step state = num_rem (num_add (num_mul state 1664525) 1013904223) 2147483648"

definition scale :: "number \<Rightarrow> number \<Rightarrow> number \<Rightarrow> number" where
  \<comment> \<open>Line 9: the returned expression, read at the state that line 8 has just stored.\<close>
  "scale state mn mx =
     num_add (math_floor (num_mul (num_div state 2147483648) (num_sub mx mn))) mn"

definition draw :: "number \<Rightarrow> number \<Rightarrow> number \<Rightarrow> number \<times> number" where
  \<comment> \<open>The body of the returned arrow function, on the captured variable: the returned
      value and the new content of \<^verbatim>\<open>state\<close>.\<close>
  "draw state mn mx = (let state' = lcg_step state in (scale state' mn mx, state'))"

subsection \<open>Closures\<close>

text \<open>
  Each call of \<^verbatim>\<open>seededRandom\<close> creates a new binding of \<^verbatim>\<open>let state\<close> and returns an arrow
  function that closes over it. The heap holds these bindings: one cell per call of
  \<^verbatim>\<open>seededRandom\<close>, addressed by a natural number that stands for the returned function.
\<close>

record heap =
  cells :: "nat \<rightharpoonup> number"
  fresh :: nat

definition empty_heap :: heap where
  "empty_heap = \<lparr>cells = Map.empty, fresh = 0\<rparr>"

datatype error = NotAGenerator | InvalidRangeError | OverflowError

text \<open>
  The source has no \<^verbatim>\<open>throw\<close> statement and calls nothing that throws on numbers.
  \<open>NotAGenerator\<close> is the answer of the model for an address that no call of
  \<^verbatim>\<open>seededRandom\<close> has returned, which a TypeScript program cannot produce.
  \<open>InvalidRangeError\<close> and \<open>OverflowError\<close> are the two errors that the specification
  names; no definition below returns them, as no line of the source raises them.
\<close>

definition seededRandom :: "number \<Rightarrow> heap \<Rightarrow> nat \<times> heap" where
  "seededRandom seed h =
     (fresh h, h\<lparr>cells := (cells h)(fresh h \<mapsto> seed), fresh := Suc (fresh h)\<rparr>)"

definition call :: "nat \<Rightarrow> number \<Rightarrow> number \<Rightarrow> heap \<Rightarrow> error + number \<times> heap" where
  "call g mn mx h =
     (case cells h g of
        None \<Rightarrow> Inl NotAGenerator
      | Some state \<Rightarrow>
          (case draw state mn mx of
             (v, state') \<Rightarrow> Inr (v, h\<lparr>cells := (cells h)(g \<mapsto> state')\<rparr>)))"

text \<open>
  A caller that calls the same generator several times in a row, as the array literal in
  the comment above \<^verbatim>\<open>seededRandom\<close> does: \<open>run\<close> threads the heap through the calls and
  collects the returned values in the order of the calls.
\<close>

fun run :: "nat \<Rightarrow> (number \<times> number) list \<Rightarrow> heap \<Rightarrow> error + number list \<times> heap" where
  "run g [] h = Inr ([], h)"
| "run g ((mn, mx) # cs) h =
     (case call g mn mx h of
        Inl e \<Rightarrow> Inl e
      | Inr (v, h') \<Rightarrow>
          (case run g cs h' of
             Inl e \<Rightarrow> Inl e
           | Inr (vs, h'') \<Rightarrow> Inr (v # vs, h'')))"

definition returned :: "error + 'a \<times> heap \<Rightarrow> error + 'a" where
  \<comment> \<open>What the caller sees of a call: the error or the returned value.\<close>
  "returned r = map_sum id fst r"

fun outputs :: "number \<Rightarrow> (number \<times> number) list \<Rightarrow> number list" where
  \<comment> \<open>The values that a closure whose cell holds \<open>state\<close> returns on a list of calls.\<close>
  "outputs state [] = []"
| "outputs state ((mn, mx) # cs) = fst (draw state mn mx) # outputs (snd (draw state mn mx)) cs"

section \<open>The exact generator of the specification\<close>

text \<open>
  The two formulas as the specification writes them, read over the integers and the
  rationals: \<open>mod\<close> is the mathematical remainder and nothing is rounded. They are
  compared with \<open>lcg_step\<close> and \<open>scale\<close> in C4 and C6.
\<close>

definition exact_lcg :: "int \<Rightarrow> int" where
  \<comment> \<open>The linear congruential transform on the integers, without rounding.\<close>
  "exact_lcg state = (state * 1664525 + 1013904223) mod 2147483648"

definition exact_value :: "int \<Rightarrow> int \<Rightarrow> int \<Rightarrow> int" where
  \<comment> \<open>The scaling step on the rationals, without rounding.\<close>
  "exact_value state mn mx = \<lfloor>(of_int state / 2147483648 :: rat) * of_int (mx - mn)\<rfloor> + mn"

section \<open>Rounding to binary64\<close>

lemma pow2_le_of_int: "(2::int) ^ k \<le> n \<Longrightarrow> (2::rat) ^ k \<le> of_int n"
proof -
  assume "(2::int) ^ k \<le> n"
  then have "(of_int ((2::int) ^ k) :: rat) \<le> of_int n" by (simp only: of_int_le_iff)
  then show ?thesis by simp
qed

lemma of_int_less_pow2: "n < (2::int) ^ k \<Longrightarrow> (of_int n :: rat) < 2 ^ k"
proof -
  assume "n < (2::int) ^ k"
  then have "(of_int n :: rat) < of_int ((2::int) ^ k)" by (simp only: of_int_less_iff)
  then show ?thesis by simp
qed

lemma ilog2_bounds:
  assumes "0 < x"
  shows "2 powi (ilog2 x) \<le> x" and "x < 2 powi (ilog2 x + 1)"
proof -
  have "2 powi (ilog2 x) \<le> x \<and> x < 2 powi (ilog2 x + 1)"
  proof (cases "1 \<le> x")
    case True
    define n where "n = \<lfloor>x\<rfloor>"
    have n1: "1 \<le> n" using True by (simp add: n_def le_floor_iff)
    then have npos: "0 < n" by simp
    have b1: "1 \<le> bitlen n" using npos by (simp add: bitlen_alt_def)
    from bitlen_bounds [OF npos]
    have lo: "(2::int) ^ nat (bitlen n - 1) \<le> n" and hi: "n < 2 ^ nat (bitlen n)" by simp_all
    have k: "ilog2 x = bitlen n - 1" using True by (simp add: ilog2_def n_def)
    have "(of_int ((2::int) ^ nat (bitlen n - 1)) :: rat) \<le> of_int n"
      using lo by (simp only: of_int_le_iff)
    also have "\<dots> \<le> x" by (simp add: n_def)
    finally have A: "(2::rat) powi (bitlen n - 1) \<le> x"
      using b1 by (simp add: power_int_def)
    have "n + 1 \<le> 2 ^ nat (bitlen n)" using hi by simp
    then have "(of_int (n + 1) :: rat) \<le> of_int (2 ^ nat (bitlen n))"
      by (simp only: of_int_le_iff)
    moreover have "x < of_int (n + 1)" unfolding n_def by linarith
    ultimately have "x < of_int ((2::int) ^ nat (bitlen n))" by linarith
    then have B: "x < (2::rat) powi (bitlen n - 1 + 1)"
      using b1 by (simp add: power_int_def)
    show ?thesis using A B k by simp
  next
    case False
    define y where "y = 1 / x"
    define m where "m = \<lceil>y\<rceil> - 1"
    have y1: "1 < y" using False assms by (simp add: y_def)
    have xy: "x = 1 / y" by (simp add: y_def)
    have "1 < \<lceil>y\<rceil>" using y1 by (simp add: less_ceiling_iff)
    then have mpos: "0 < m" by (simp add: m_def)
    have k: "ilog2 x = - bitlen m" using False by (simp add: ilog2_def m_def y_def)
    have b1: "1 \<le> bitlen m" using mpos by (simp add: bitlen_alt_def)
    from bitlen_bounds [OF mpos]
    have lo: "(2::int) ^ nat (bitlen m - 1) \<le> m" and hi: "m < 2 ^ nat (bitlen m)" by simp_all
    have "y \<le> of_int (m + 1)" by (simp add: m_def)
    also have "(of_int (m + 1) :: rat) \<le> of_int (2 ^ nat (bitlen m))"
      using hi by (simp only: of_int_le_iff)
    finally have yle: "y \<le> 2 ^ nat (bitlen m)" by simp
    have "(2::rat) ^ nat (bitlen m - 1) \<le> of_int m"
      using lo by (rule pow2_le_of_int)
    moreover have "of_int m < y" unfolding m_def by linarith
    ultimately have ygt: "2 ^ nat (bitlen m - 1) < y" by linarith
    have A: "(2::rat) powi (- bitlen m) \<le> x"
    proof -
      have "1 / 2 ^ nat (bitlen m) \<le> 1 / y"
        using yle y1 by (intro divide_left_mono) simp_all
      then show ?thesis using b1 by (simp add: power_int_def xy field_simps)
    qed
    have B: "x < (2::rat) powi (- bitlen m + 1)"
    proof -
      have "1 / y < 1 / 2 ^ nat (bitlen m - 1)"
        using ygt y1 by (intro divide_strict_left_mono) simp_all
      moreover have "(2::rat) powi (- bitlen m + 1) = 1 / 2 ^ nat (bitlen m - 1)"
      proof -
        have "- bitlen m + 1 = - (bitlen m - 1)" by simp
        then have "(2::rat) powi (- bitlen m + 1) = 2 powi (- (bitlen m - 1))" by simp
        also have "\<dots> = 1 / 2 powi (bitlen m - 1)" by (rule power_int_minus_divide)
        also have "\<dots> = 1 / 2 ^ nat (bitlen m - 1)" using b1 by (simp add: power_int_def)
        finally show ?thesis .
      qed
      ultimately show ?thesis by (simp add: xy)
    qed
    show ?thesis using A B k by simp
  qed
  then show "2 powi (ilog2 x) \<le> x" and "x < 2 powi (ilog2 x + 1)" by simp_all
qed

lemma round_even_of_int: "round_even (of_int n) = n"
  by (simp add: round_even_def)

lemma round_even_error: "\<bar>of_int (round_even z) - z\<bar> \<le> 1 / 2"
proof -
  have "of_int \<lfloor>z\<rfloor> \<le> z" "z < of_int \<lfloor>z\<rfloor> + 1" by linarith+
  then show ?thesis unfolding round_even_def Let_def by (simp add: abs_if) linarith
qed

lemma round_even_nonneg: "0 \<le> z \<Longrightarrow> 0 \<le> round_even z"
  by (auto simp add: round_even_def Let_def)

lemma powi2_less_exp: "(2::rat) powi a < 2 powi b \<Longrightarrow> a < b"
proof (rule ccontr)
  assume lt: "(2::rat) powi a < 2 powi b" and "\<not> a < b"
  then have "b \<le> a" by simp
  then have "(2::rat) powi b \<le> 2 powi a" by (intro power_int_increasing) simp_all
  with lt show False by simp
qed

lemma fl_unfold:
  "x \<noteq> 0 \<Longrightarrow>
   fl x = of_int (round_even (x / 2 powi (ilog2 \<bar>x\<bar> - 52))) * 2 powi (ilog2 \<bar>x\<bar> - 52)"
  by (simp add: fl_def Let_def)

lemma fl_zero: "fl 0 = 0"
  by (simp add: fl_def)

lemma fl_exact_dyadic:
  assumes "\<bar>m\<bar> < 2 ^ 53"
  shows "fl (of_int m * 2 powi k) = of_int m * 2 powi k"
proof (cases "m = 0")
  case True
  then show ?thesis by (simp add: fl_zero)
next
  case False
  define x :: rat where "x = of_int m * 2 powi k"
  define e where "e = ilog2 \<bar>x\<bar> - 52"
  have xne: "x \<noteq> 0" using False by (simp add: x_def)
  have absx: "\<bar>x\<bar> = of_int \<bar>m\<bar> * 2 powi k" by (simp add: x_def abs_mult)
  have "(of_int \<bar>m\<bar> :: rat) < 2 ^ 53" using assms by (rule of_int_less_pow2)
  then have "\<bar>x\<bar> < 2 ^ 53 * 2 powi k" unfolding absx by (intro mult_strict_right_mono) simp_all
  also have "\<dots> = 2 powi (k + 53)" by (simp add: power_int_add)
  finally have up: "\<bar>x\<bar> < 2 powi (k + 53)" .
  have "2 powi (ilog2 \<bar>x\<bar>) \<le> \<bar>x\<bar>" using xne by (intro ilog2_bounds) simp
  then have "(2::rat) powi (e + 52) \<le> \<bar>x\<bar>" by (simp add: e_def)
  with up have "(2::rat) powi (e + 52) < 2 powi (k + 53)" by linarith
  then have "e + 52 < k + 53" by (rule powi2_less_exp)
  then have ek: "e \<le> k" by simp
  have split: "(2::rat) powi k = 2 powi (k - e) * 2 powi e"
    by (simp add: power_int_add [symmetric])
  have "x / 2 powi e = of_int m * 2 powi (k - e)" by (simp add: x_def split)
  also have "\<dots> = of_int (m * 2 ^ nat (k - e))" using ek by (simp add: power_int_def)
  finally have "round_even (x / 2 powi e) = m * 2 ^ nat (k - e)"
    by (simp only: round_even_of_int)
  then have "fl x = of_int (m * 2 ^ nat (k - e)) * 2 powi e"
    using xne by (simp add: fl_unfold e_def)
  also have "\<dots> = of_int m * (2 powi (k - e) * 2 powi e)" using ek by (simp add: power_int_def)
  also have "\<dots> = x" by (simp only: split [symmetric] x_def)
  finally show ?thesis by (simp add: x_def)
qed

lemma fl_of_int_exact:
  assumes "\<bar>n\<bar> \<le> 2 ^ 53"
  shows "fl (of_int n) = of_int n"
proof (cases "\<bar>n\<bar> < 2 ^ 53")
  case True
  from fl_exact_dyadic [OF True, of 0] show ?thesis by simp
next
  case False
  with assms have "n = 2 ^ 53 \<or> n = - (2 ^ 53)" by auto
  then obtain m :: int where m: "\<bar>m\<bar> < 2 ^ 53" and n: "n = m * 2" by auto
  from fl_exact_dyadic [OF m, of 1] show ?thesis by (simp add: n)
qed

lemma fl_nonneg: "0 \<le> x \<Longrightarrow> 0 \<le> fl x"
  by (simp add: fl_def Let_def round_even_nonneg)

lemma fl_of_int_integral: "fl (of_int n) = of_int \<lfloor>fl (of_int n)\<rfloor>"
proof (cases "n = 0")
  case True
  then show ?thesis by (simp add: fl_zero)
next
  case False
  define x :: rat where "x = of_int n"
  define e where "e = ilog2 \<bar>x\<bar> - 52"
  have xne: "x \<noteq> 0" using False by (simp add: x_def)
  show ?thesis
  proof (cases "0 \<le> e")
    case True
    have "fl x = of_int (round_even (x / 2 powi e) * 2 ^ nat e)"
      using xne True by (simp add: fl_unfold e_def power_int_def)
    then show ?thesis unfolding x_def by (metis floor_of_int)
  next
    case False
    have "\<bar>x\<bar> < 2 powi (ilog2 \<bar>x\<bar> + 1)" using xne by (intro ilog2_bounds) simp
    moreover have "ilog2 \<bar>x\<bar> + 1 = e + 53" by (simp add: e_def)
    ultimately have "\<bar>x\<bar> < 2 powi (e + 53)" by (simp only:)
    also have "(2::rat) powi (e + 53) \<le> 2 powi 53"
      using False by (intro power_int_increasing) simp_all
    finally have "(of_int \<bar>n\<bar> :: rat) < of_int (2 ^ 53)" by (simp add: x_def)
    then have "\<bar>n\<bar> < 2 ^ 53" by (simp only: of_int_less_iff)
    then have "fl (of_int n) = of_int n" by (intro fl_of_int_exact) simp
    then show ?thesis by simp
  qed
qed

lemma fl_rel_error: "\<bar>fl x - x\<bar> \<le> \<bar>x\<bar> / 2 ^ 53"
proof (cases "x = 0")
  case True
  then show ?thesis by (simp add: fl_zero)
next
  case False
  define e where "e = ilog2 \<bar>x\<bar> - 52"
  define z where "z = x / 2 powi e"
  have p: "0 < (2::rat) powi e" by simp
  have x: "x = z * 2 powi e" by (simp add: z_def)
  have "fl x - x = (of_int (round_even z) - z) * 2 powi e"
    using False by (simp add: fl_unfold e_def z_def algebra_simps)
  then have "\<bar>fl x - x\<bar> = \<bar>of_int (round_even z) - z\<bar> * 2 powi e"
    by (simp add: abs_mult)
  also have "\<dots> \<le> 1 / 2 * 2 powi e"
    using round_even_error [of z] by (intro mult_right_mono) simp_all
  finally have A: "\<bar>fl x - x\<bar> \<le> 2 powi e / 2" by simp
  have "2 powi (ilog2 \<bar>x\<bar>) \<le> \<bar>x\<bar>" using False by (intro ilog2_bounds) simp
  moreover have "ilog2 \<bar>x\<bar> = e + 52" by (simp add: e_def)
  ultimately have "(2::rat) powi (e + 52) \<le> \<bar>x\<bar>" by simp
  then have "(2::rat) powi e * 2 ^ 52 \<le> \<bar>x\<bar>" by (simp add: power_int_add)
  then have "2 powi e / 2 \<le> \<bar>x\<bar> / 2 ^ 53" by simp
  with A show ?thesis by linarith
qed

lemma round_even_minus: "round_even (- z) = - round_even z"
proof (cases "z = of_int \<lfloor>z\<rfloor>")
  case True
  then obtain n where z: "z = of_int n" ..
  have "- z = of_int (- n)" by (simp add: z)
  then have "round_even (- z) = - n" by (simp only: round_even_of_int)
  then show ?thesis by (simp add: z round_even_of_int)
next
  case False
  have lo: "of_int \<lfloor>z\<rfloor> \<le> z" and hi: "z < of_int \<lfloor>z\<rfloor> + 1" by linarith+
  have lo': "of_int \<lfloor>z\<rfloor> < z" using False by (metis of_int_floor_le order_le_less)
  have fm: "\<lfloor>- z\<rfloor> = - \<lfloor>z\<rfloor> - 1"
    using lo' hi by (intro floor_unique) simp_all
  show ?thesis
    unfolding round_even_def Let_def fm using lo' hi
    by (auto simp add: algebra_simps)
qed

lemma fl_minus: "fl (- x) = - fl x"
  by (simp add: fl_def Let_def round_even_minus)

lemma scaled_product_bound:
  assumes q0: "0 \<le> q" and q1: "q \<le> 1 - 1 / 2 ^ 31" and d: "0 < d"
  shows "0 \<le> fl (q * fl d)" and "fl (q * fl d) < d"
proof -
  define eps :: rat where "eps = 1 / 2 ^ 53"
  have D0: "0 \<le> fl d" using d by (intro fl_nonneg) simp
  have up: "y \<le> x * (1 + eps)" if "\<bar>y - x\<bar> \<le> \<bar>x\<bar> / 2 ^ 53" and "0 \<le> x" for x y :: rat
  proof -
    have "y - x \<le> \<bar>y - x\<bar>" by simp
    also have "\<dots> \<le> x * eps" using that by (simp add: eps_def)
    finally show ?thesis by (simp add: algebra_simps)
  qed
  have D1: "fl d \<le> d * (1 + eps)" using d by (intro up fl_rel_error) simp
  have qD0: "0 \<le> q * fl d" using q0 D0 by simp
  then show "0 \<le> fl (q * fl d)" by (rule fl_nonneg)
  have "q * fl d \<le> (1 - 1 / 2 ^ 31) * (d * (1 + eps))"
    using q0 q1 D0 D1 by (intro mult_mono) simp_all
  then have qD1: "q * fl d \<le> d * ((1 - 1 / 2 ^ 31) * (1 + eps))" by (simp add: mult_ac)
  have "\<bar>fl (q * fl d) - q * fl d\<bar> \<le> \<bar>q * fl d\<bar> / 2 ^ 53" by (rule fl_rel_error)
  then have "fl (q * fl d) \<le> q * fl d * (1 + eps)"
    using qD0 by (rule up)
  also have "\<dots> \<le> d * ((1 - 1 / 2 ^ 31) * (1 + eps)) * (1 + eps)"
    using qD1 by (intro mult_right_mono) (simp_all add: eps_def)
  also have "\<dots> = d * ((1 - 1 / 2 ^ 31) * (1 + eps) * (1 + eps))" by (simp add: mult_ac)
  also have "\<dots> < d * 1"
    using d by (intro mult_strict_left_mono) (simp_all add: eps_def)
  finally show "fl (q * fl d) < d" by simp
qed

lemma trunc_of_int_div:
  assumes "0 < m"
  shows "trunc (of_int n / of_int m) = (if 0 \<le> n then n div m else - ((- n) div m))"
proof (cases "0 \<le> n")
  case True
  then have "0 \<le> (of_int n / of_int m :: rat)" using assms by simp
  then show ?thesis using True by (simp add: trunc_def floor_divide_of_int_eq)
next
  case False
  then have neg: "(of_int n / of_int m :: rat) < 0" using assms by (simp add: divide_neg_pos)
  have "\<lceil>(of_int n / of_int m :: rat)\<rceil> = - \<lfloor>(of_int (- n) / of_int m :: rat)\<rfloor>"
    by (simp add: ceiling_def)
  also have "\<dots> = - ((- n) div m)" by (simp only: floor_divide_of_int_eq)
  finally show ?thesis using False neg by (simp add: trunc_def)
qed


lemma num_rem_of_int:
  assumes "0 < m"
  shows "num_rem (of_int n) (of_int m) = of_int (tmod n m)"
proof -
  have "n - m * (n div m) = n mod m" by (simp add: minus_mult_div_eq_mod)
  moreover have "n + m * ((- n) div m) = - ((- n) mod m)"
    using minus_mult_div_eq_mod [of "- n" m] by simp
  ultimately have "n - m * (if 0 \<le> n then n div m else - ((- n) div m)) = tmod n m"
    by (simp add: tmod_def)
  then have "(of_int (n - m * trunc (of_int n / of_int m :: rat)) :: rat) = of_int (tmod n m)"
    by (simp only: trunc_of_int_div [OF assms])
  then show ?thesis by (simp add: num_rem_def)
qed

lemma tmod_bounds:
  assumes "0 < m"
  shows "\<bar>tmod n m\<bar> < m" and "0 \<le> n \<Longrightarrow> 0 \<le> tmod n m"
proof -
  have a: "0 \<le> n mod m" "n mod m < m" "0 \<le> (- n) mod m" "(- n) mod m < m"
    using assms by simp_all
  show "\<bar>tmod n m\<bar> < m"
  proof (cases "0 \<le> n")
    case True
    then have "tmod n m = n mod m" by (simp add: tmod_def)
    with a show ?thesis by linarith
  next
    case False
    then have "tmod n m = - ((- n) mod m)" by (simp add: tmod_def)
    with a show ?thesis by linarith
  qed
  show "0 \<le> tmod n m" if "0 \<le> n"
    using that a by (simp add: tmod_def)
qed

section \<open>The two lines of the arrow function\<close>

lemma num_rem_modulus: "num_rem (of_int n) 2147483648 = of_int (tmod n 2147483648)"
  using num_rem_of_int [of 2147483648 n] by simp

lemma lcg_step_int:
  "\<exists>t. lcg_step (of_int s) = of_int t \<and> \<bar>t\<bar> < 2147483648 \<and> (0 \<le> s \<longrightarrow> 0 \<le> t)"
proof -
  define n1 where "n1 = \<lfloor>fl (of_int (s * 1664525))\<rfloor>"
  define n2 where "n2 = \<lfloor>fl (of_int (n1 + 1013904223))\<rfloor>"
  have m: "num_mul (of_int s) 1664525 = of_int n1"
    using fl_of_int_integral [of "s * 1664525"] by (simp add: num_mul_def n1_def)
  have a: "num_add (of_int n1) 1013904223 = of_int n2"
    using fl_of_int_integral [of "n1 + 1013904223"] by (simp add: num_add_def n2_def)
  have step: "lcg_step (of_int s) = of_int (tmod n2 2147483648)"
    by (simp only: lcg_step_def m a num_rem_modulus)
  have pos: "0 \<le> tmod n2 2147483648" if "0 \<le> s"
  proof -
    have "0 \<le> fl (of_int (s * 1664525))" using that by (intro fl_nonneg) simp
    then have "0 \<le> n1" by (simp add: n1_def)
    then have "0 \<le> fl (of_int (n1 + 1013904223))" by (intro fl_nonneg) simp
    then have "0 \<le> n2" by (simp add: n2_def)
    then show ?thesis by (intro tmod_bounds) simp_all
  qed
  have "\<bar>tmod n2 2147483648\<bar> < 2147483648" by (intro tmod_bounds) simp
  with step pos show ?thesis by blast
qed

lemma lcg_step_exact:
  assumes "\<bar>s * 1664525\<bar> \<le> 2 ^ 53" and "\<bar>s * 1664525 + 1013904223\<bar> \<le> 2 ^ 53"
  shows "lcg_step (of_int s) = of_int (tmod (s * 1664525 + 1013904223) 2147483648)"
proof -
  have m: "num_mul (of_int s) 1664525 = of_int (s * 1664525)"
    using fl_of_int_exact [OF assms(1)] by (simp add: num_mul_def)
  have a: "num_add (of_int (s * 1664525)) 1013904223 = of_int (s * 1664525 + 1013904223)"
    using fl_of_int_exact [OF assms(2)] by (simp add: num_add_def)
  show ?thesis by (simp only: lcg_step_def m a num_rem_modulus)
qed

lemma lcg_step_exact_lcg:
  assumes "0 \<le> s" and "s * 1664525 + 1013904223 \<le> 2 ^ 53"
  shows "lcg_step (of_int s) = of_int (exact_lcg s)"
proof -
  have "\<bar>s * 1664525\<bar> \<le> 2 ^ 53" "\<bar>s * 1664525 + 1013904223\<bar> \<le> 2 ^ 53"
    using assms by simp_all
  then have "lcg_step (of_int s) = of_int (tmod (s * 1664525 + 1013904223) 2147483648)"
    by (rule lcg_step_exact)
  then show ?thesis using assms(1) by (simp add: tmod_def exact_lcg_def)
qed

lemma exact_lcg_range: "0 \<le> exact_lcg s" "exact_lcg s < 2147483648"
  by (simp_all add: exact_lcg_def)

lemma lcg_iterate_nonneg:
  assumes "0 \<le> s"
  shows "\<exists>t. (lcg_step ^^ n) (of_int s) = of_int t \<and> 0 \<le> t"
proof (induction n)
  case 0
  with assms show ?case by auto
next
  case (Suc n)
  then obtain t where t: "(lcg_step ^^ n) (of_int s) = of_int t" "0 \<le> t" by blast
  from lcg_step_int [of t] t(2) obtain u where "lcg_step (of_int t) = of_int u" "0 \<le> u"
    by blast
  with t(1) show ?case by auto
qed

lemma lcg_iterate_int: "\<exists>t. (lcg_step ^^ n) (of_int s) = of_int t"
proof (induction n)
  case 0
  show ?case by auto
next
  case (Suc n)
  then obtain t where t: "(lcg_step ^^ n) (of_int s) = of_int t" by blast
  from lcg_step_int [of t] obtain u where "lcg_step (of_int t) = of_int u" by blast
  with t show ?case by auto
qed

lemma num_div_modulus:
  assumes "\<bar>t\<bar> < 2 ^ 53"
  shows "num_div (of_int t) 2147483648 = of_int t / 2147483648"
  using fl_exact_dyadic [OF assms, of "- 31"] by (simp add: num_div_def power_int_minus_divide)

lemma unit_fraction:
  assumes "0 \<le> t" and "t < 2147483648"
  shows "0 \<le> (of_int t / 2147483648 :: rat)" and "(of_int t / 2147483648 :: rat) \<le> 1 - 1 / 2 ^ 31"
proof -
  show "0 \<le> (of_int t / 2147483648 :: rat)" using assms(1) by simp
  have "t \<le> 2147483647" using assms(2) by simp
  then have "(of_int t :: rat) \<le> of_int 2147483647" by (simp only: of_int_le_iff)
  then show "(of_int t / 2147483648 :: rat) \<le> 1 - 1 / 2 ^ 31" by simp
qed

lemma scaled_floor_range:
  fixes t a b :: int
  assumes t: "0 \<le> t" "t < 2147483648"
  defines "f \<equiv> \<lfloor>fl (of_int t / 2147483648 * fl (of_int (b - a)))\<rfloor>"
  shows "a < b \<Longrightarrow> 0 \<le> f \<and> f < b - a" and "b \<le> a \<Longrightarrow> b - a \<le> f \<and> f \<le> 0"
proof -
  define q :: rat where "q = of_int t / 2147483648"
  define d :: rat where "d = of_int (b - a)"
  define p where "p = fl (q * fl d)"
  have f: "f = \<lfloor>p\<rfloor>" by (simp add: f_def p_def q_def d_def)
  have q0: "0 \<le> q" and q1: "q \<le> 1 - 1 / 2 ^ 31"
    unfolding q_def using t by (rule unit_fraction)+
  show "0 \<le> f \<and> f < b - a" if "a < b"
  proof -
    from that have "0 < d" by (simp add: d_def)
    with q0 q1 have "0 \<le> p" "p < d" unfolding p_def by (rule scaled_product_bound)+
    then show ?thesis by (simp add: f floor_less_iff d_def)
  qed
  show "b - a \<le> f \<and> f \<le> 0" if "b \<le> a"
  proof (cases "a = b")
    case True
    then have "p = 0" by (simp add: p_def d_def fl_zero)
    with True show ?thesis by (simp add: f)
  next
    case False
    with that have "0 < - d" by (simp add: d_def)
    with q0 q1 have "0 \<le> fl (q * fl (- d))" "fl (q * fl (- d)) < - d"
      by (rule scaled_product_bound)+
    moreover have "fl (q * fl (- d)) = - p" by (simp add: p_def fl_minus)
    ultimately have "p \<le> 0" "d < p" by simp_all
    then have "\<lfloor>p\<rfloor> \<le> 0" "b - a \<le> \<lfloor>p\<rfloor>"
      by (simp_all add: floor_le_iff le_floor_iff d_def)
    then show ?thesis by (simp add: f)
  qed
qed

lemma scale_int:
  assumes t: "0 \<le> t" "t < 2147483648" and a: "\<bar>a\<bar> < 2 ^ 53" and b: "\<bar>b\<bar> < 2 ^ 53"
  shows "scale (of_int t) (of_int a) (of_int b) =
           of_int (\<lfloor>fl (of_int t / 2147483648 * fl (of_int (b - a)))\<rfloor> + a)"
proof -
  define f where "f = \<lfloor>fl (of_int t / 2147483648 * fl (of_int (b - a)))\<rfloor>"
  have "\<bar>t\<bar> < 2 ^ 53" using t by simp
  then have q: "num_div (of_int t) 2147483648 = of_int t / 2147483648" by (rule num_div_modulus)
  have "\<bar>f + a\<bar> \<le> 2 ^ 53"
  proof (cases "a < b")
    case True
    from scaled_floor_range(1) [OF t True] have "0 \<le> f" "f < b - a" by (simp_all add: f_def)
    with a b show ?thesis by linarith
  next
    case False
    then have "b \<le> a" by simp
    from scaled_floor_range(2) [OF t this] have "b - a \<le> f" "f \<le> 0" by (simp_all add: f_def)
    with a b show ?thesis by linarith
  qed
  then have "fl (of_int (f + a)) = of_int (f + a)" by (rule fl_of_int_exact)
  then show ?thesis
    by (simp add: scale_def q math_floor_def num_mul_def num_add_def num_sub_def f_def)
qed

lemma scale_exact:
  assumes t: "0 \<le> t" "t < 2147483648" and a: "\<bar>a\<bar> < 2 ^ 53" and b: "\<bar>b\<bar> < 2 ^ 53"
    and d: "t * \<bar>b - a\<bar> < 2 ^ 53"
  shows "scale (of_int t) (of_int a) (of_int b) = of_int (exact_value t a b)"
proof (cases "t = 0")
  case True
  have "scale (of_int 0) (of_int a) (of_int b) =
      of_int (\<lfloor>fl (of_int 0 / 2147483648 * fl (of_int (b - a)))\<rfloor> + a)"
    using a b by (intro scale_int) simp_all
  then show ?thesis by (simp add: True fl_zero exact_value_def)
next
  case False
  with t(1) have t1: "1 \<le> t" by simp
  have "1 * \<bar>b - a\<bar> \<le> t * \<bar>b - a\<bar>" using t1 by (intro mult_right_mono) simp_all
  with d have "\<bar>b - a\<bar> \<le> 2 ^ 53" by simp
  then have sub: "fl (of_int (b - a)) = of_int (b - a)" by (rule fl_of_int_exact)
  have "\<bar>t * (b - a)\<bar> = t * \<bar>b - a\<bar>" using t(1) by (simp add: abs_mult)
  with d have "\<bar>t * (b - a)\<bar> < 2 ^ 53" by simp
  from fl_exact_dyadic [OF this, of "- 31"]
  have mul: "fl (of_int t / 2147483648 * of_int (b - a)) = of_int t / 2147483648 * of_int (b - a)"
    by (simp add: power_int_minus_divide)
  show ?thesis
    unfolding scale_int [OF t a b] sub mul exact_value_def ..
qed

lemma scale_modulus:
  assumes "\<bar>t\<bar> < 2147483648"
  shows "scale (of_int t) 0 2147483648 = of_int t"
proof -
  have "\<bar>t\<bar> < 2 ^ 53" using assms by simp
  then have q: "num_div (of_int t) 2147483648 = of_int t / 2147483648" by (rule num_div_modulus)
  have "\<bar>2147483648 :: int\<bar> \<le> 2 ^ 53" by simp
  from fl_of_int_exact [OF this] have m: "fl 2147483648 = 2147483648" by simp
  have "\<bar>t\<bar> \<le> 2 ^ 53" using assms by simp
  from fl_of_int_exact [OF this] have ft: "fl (of_int t) = of_int t" .
  show ?thesis
    by (simp add: scale_def q num_sub_def m num_mul_def ft math_floor_def num_add_def)
qed

section \<open>Calls through the heap\<close>

lemma draw_eq: "draw state mn mx = (scale (lcg_step state) mn mx, lcg_step state)"
  by (simp add: draw_def Let_def)

lemma call_live:
  assumes "cells h g = Some state"
  shows "call g mn mx h =
           Inr (scale (lcg_step state) mn mx, h\<lparr>cells := (cells h)(g \<mapsto> lcg_step state)\<rparr>)"
  using assms by (simp add: call_def draw_eq)

lemma run_live:
  assumes "cells h g = Some state"
  shows "run g cs h =
           Inr (outputs state cs, h\<lparr>cells := (cells h)(g \<mapsto> (lcg_step ^^ length cs) state)\<rparr>)"
  using assms
proof (induction cs arbitrary: h state)
  case Nil
  then have "(cells h)(g \<mapsto> state) = cells h" by (simp add: map_upd_triv)
  then show ?case by simp
next
  case (Cons c cs)
  obtain mn mx where c: "c = (mn, mx)" by (cases c)
  define h' where "h' = h\<lparr>cells := (cells h)(g \<mapsto> lcg_step state)\<rparr>"
  have live: "cells h' g = Some (lcg_step state)" by (simp add: h'_def)
  have first: "call g mn mx h = Inr (scale (lcg_step state) mn mx, h')"
    using Cons.prems by (simp add: call_live h'_def)
  have rest: "run g cs h' =
      Inr (outputs (lcg_step state) cs,
           h'\<lparr>cells := (cells h')(g \<mapsto> (lcg_step ^^ length cs) (lcg_step state))\<rparr>)"
    by (rule Cons.IH [OF live])
  have same: "h'\<lparr>cells := (cells h')(g \<mapsto> x)\<rparr> = h\<lparr>cells := (cells h)(g \<mapsto> x)\<rparr>" for x
    by (simp add: h'_def)
  have len: "(lcg_step ^^ length (c # cs)) state = (lcg_step ^^ length cs) (lcg_step state)"
    by (simp add: funpow_swap1)
  have out: "outputs state (c # cs) = scale (lcg_step state) mn mx # outputs (lcg_step state) cs"
    by (simp add: c draw_eq)
  have "run g (c # cs) h =
      Inr (scale (lcg_step state) mn mx # outputs (lcg_step state) cs,
           h\<lparr>cells := (cells h)(g \<mapsto> (lcg_step ^^ length cs) (lcg_step state))\<rparr>)"
    by (simp add: c first rest same)
  then show ?case by (simp only: len out)
qed

lemma seededRandom_twice:
  assumes "seededRandom s h = (a, h1)" and "seededRandom s' h1 = (b, h2)"
  shows "a \<noteq> b" and "cells h2 a = Some s" and "cells h2 b = Some s'"
  using assms by (auto simp add: seededRandom_def)

lemma draw_1st: "draw 1 1 10 = (5, 1015568748)" by code_simp
lemma draw_2nd: "draw 1015568748 1 10 = (7, 1586005467)" by code_simp
lemma draw_3rd: "draw 1586005467 1 10 = (1, 18219390)" by code_simp
lemma draw_4th: "draw 18219390 1 10 = (4, 879966917)" by code_simp

section \<open>The claims\<close>

subsection \<open>C1: the returned value lies between the bounds\<close>

text \<open>
  C1, as amended. For every integer seed with \<open>0 \<le> seed < 2^53\<close>, after any number \<open>n\<close>
  of earlier draws, a draw with integer bounds of absolute value below \<open>2^53\<close> and
  \<open>mn < mx\<close> returns an integer \<open>v\<close> with \<open>mn \<le> v < mx\<close>. The state before the
  draw is \<open>(lcg_step ^^ n) seed\<close> whatever the earlier bounds were (see C10). The proof
  does not need the scaled product to be exact: two roundings with relative error
  \<open>2^-53\<close> cannot lift a fraction of at most \<open>1 - 2^-31\<close> to 1.
\<close>

theorem draw_within_bounds:
  assumes "0 \<le> seed" and "seed < 2 ^ 53"
    and "\<bar>mn\<bar> < 2 ^ 53" and "\<bar>mx\<bar> < 2 ^ 53" and "mn < mx"
  shows "\<exists>v. fst (draw ((lcg_step ^^ n) (of_int seed)) (of_int mn) (of_int mx)) = of_int v
           \<and> mn \<le> v \<and> v < mx"
proof -
  from lcg_iterate_nonneg [OF assms(1), of n]
  obtain s where s: "(lcg_step ^^ n) (of_int seed) = of_int s" "0 \<le> s" by blast
  from lcg_step_int [of s] s(2)
  obtain t where t: "lcg_step (of_int s) = of_int t" "\<bar>t\<bar> < 2147483648" "0 \<le> t" by blast
  then have t': "0 \<le> t" "t < 2147483648" by simp_all
  define f where "f = \<lfloor>fl (of_int t / 2147483648 * fl (of_int (mx - mn)))\<rfloor>"
  have "scale (of_int t) (of_int mn) (of_int mx) = of_int (f + mn)"
    unfolding f_def using t' assms(3,4) by (rule scale_int)
  then have "fst (draw ((lcg_step ^^ n) (of_int seed)) (of_int mn) (of_int mx)) = of_int (f + mn)"
    by (simp only: draw_eq s(1) t(1) fst_conv)
  moreover from scaled_floor_range(1) [OF t' assms(5)] have "mn \<le> f + mn" "f + mn < mx"
    by (simp_all add: f_def)
  ultimately show ?thesis by blast
qed

theorem draw_within_bounds_witness:
  "(0::int) \<le> 1 \<and> (1::int) < 2 ^ 53 \<and> \<bar>1::int\<bar> < 2 ^ 53 \<and> \<bar>10::int\<bar> < 2 ^ 53 \<and> (1::int) < 10
   \<and> (\<exists>v. fst (draw ((lcg_step ^^ 2) (of_int 1)) (of_int 1) (of_int 10)) = of_int v
           \<and> 1 \<le> v \<and> v < 10)"
  using draw_within_bounds [of 1 1 10 2] by simp

text \<open>
  C1 as stated fails twice. The operator \<^verbatim>\<open>%\<close> keeps the sign of its left operand, so a
  negative seed can leave a negative state: seed \<open>-1000\<close> gives the state
  \<open>-650620777\<close>, and the call \<open>(1, 10)\<close> returns \<open>-2\<close>, below the lower bound. And
  beyond \<open>2^53\<close> the final addition rounds: with seed 36 the call
  \<open>(2^53 + 2, 2^53 + 4)\<close> computes \<open>1 + (2^53 + 2)\<close>, which is a tie that rounds to
  the even significand \<open>2^53 + 4\<close>, the excluded upper bound.
\<close>

theorem draw_outside_bounds:
  "returned (call (fst (seededRandom (- 1000) empty_heap)) 1 10
     (snd (seededRandom (- 1000) empty_heap))) = Inr (- 2)
   \<and> returned (call (fst (seededRandom 36 empty_heap)) 9007199254740994 9007199254740996
     (snd (seededRandom 36 empty_heap))) = Inr 9007199254740996"
  by code_simp

subsection \<open>C2: the known vector\<close>

text \<open>
  C2. A generator constructed with seed 1, in any heap, and called four times with the
  arguments (1, 10) returns 5, 7, 1 and 4, in this order: the vector of the comment above
  \<^verbatim>\<open>seededRandom\<close>.
\<close>

theorem known_vector_seed_1:
  "returned (run (fst (seededRandom 1 h)) [(1, 10), (1, 10), (1, 10), (1, 10)]
     (snd (seededRandom 1 h))) = Inr [5, 7, 1, 4]"
proof -
  have "cells (snd (seededRandom 1 h)) (fst (seededRandom 1 h)) = Some 1"
    by (simp add: seededRandom_def)
  from run_live [OF this, of "[(1, 10), (1, 10), (1, 10), (1, 10)]"] show ?thesis
    by (simp add: returned_def draw_1st draw_2nd draw_3rd draw_4th del: run.simps)
qed

subsection \<open>C3: determinism\<close>

text \<open>
  C3. Two generators constructed one after the other from the same seed, the first of
  them fed the list of calls \<open>cs\<close> and then the second one fed the same list, both return,
  and they return the same list of values. The seed is any number and \<open>cs\<close> any finite
  list of pairs of bounds.
\<close>

theorem same_seed_same_outputs:
  assumes "seededRandom seed h = (a, h1)" and "seededRandom seed h1 = (b, h2)"
  shows "\<exists>outs h3 h4. run a cs h2 = Inr (outs, h3) \<and> run b cs h3 = Inr (outs, h4)"
proof -
  from seededRandom_twice [OF assms]
  have ne: "a \<noteq> b" and la: "cells h2 a = Some seed" and lb: "cells h2 b = Some seed" .
  define h3 where "h3 = h2\<lparr>cells := (cells h2)(a \<mapsto> (lcg_step ^^ length cs) seed)\<rparr>"
  have ra: "run a cs h2 = Inr (outputs seed cs, h3)" unfolding h3_def using la by (rule run_live)
  have "cells h3 b = Some seed" using ne lb by (simp add: h3_def)
  from run_live [OF this, of cs] ra show ?thesis by blast
qed

theorem same_seed_same_outputs_witness:
  "seededRandom 1 empty_heap = (0, \<lparr>cells = [0 \<mapsto> 1], fresh = 1\<rparr>)
   \<and> seededRandom 1 \<lparr>cells = [0 \<mapsto> 1], fresh = 1\<rparr> = (1, \<lparr>cells = [0 \<mapsto> 1, 1 \<mapsto> 1], fresh = 2\<rparr>)
   \<and> (\<exists>outs h3 h4. run 0 [(1, 10), (1, 10)] \<lparr>cells = [0 \<mapsto> 1, 1 \<mapsto> 1], fresh = 2\<rparr> = Inr (outs, h3)
         \<and> run 1 [(1, 10), (1, 10)] h3 = Inr (outs, h4))"
proof -
  have c1: "seededRandom 1 empty_heap = (0, \<lparr>cells = [0 \<mapsto> 1], fresh = 1\<rparr>)"
    by (simp add: seededRandom_def empty_heap_def)
  have c2: "seededRandom 1 \<lparr>cells = [0 \<mapsto> 1], fresh = 1\<rparr>
      = (1, \<lparr>cells = [0 \<mapsto> 1, 1 \<mapsto> 1], fresh = 2\<rparr>)"
    by (simp add: seededRandom_def)
  from same_seed_same_outputs [OF c1 c2, of "[(1, 10), (1, 10)]"] c1 c2 show ?thesis by blast
qed

subsection \<open>C4: the state is updated before the value is computed\<close>

text \<open>
  C4, as amended. On a generator whose cell holds an integer \<open>s\<close> with \<open>0 \<le> s\<close> and
  \<open>s * 1664525 + 1013904223 \<le> 2^53\<close>, a call with integer bounds below \<open>2^53\<close> in absolute
  value first stores the new state \<open>s' = (s * 1664525 + 1013904223) mod 2147483648\<close> and
  then returns \<open>floor ((s' / 2147483648) * (max - min)) + min\<close>, computed from the new
  state \<open>s'\<close> and not from \<open>s\<close>, provided that \<open>s' * |max - min| < 2^53\<close> (which holds
  whenever the bounds are at most \<open>2^22\<close> apart). Both formulas are read over the integers
  and the rationals: on this domain no operation of the code rounds. Right after
  \<^verbatim>\<open>seededRandom seed\<close> the cell holds the seed, so the first value is already computed
  from the transformed seed.
\<close>

theorem state_updated_before_value:
  assumes "cells h g = Some (of_int s)" and "0 \<le> s" and "s * 1664525 + 1013904223 \<le> 2 ^ 53"
    and "\<bar>mn\<bar> < 2 ^ 53" and "\<bar>mx\<bar> < 2 ^ 53" and "exact_lcg s * \<bar>mx - mn\<bar> < 2 ^ 53"
  shows "call g (of_int mn) (of_int mx) h =
           Inr (of_int (exact_value (exact_lcg s) mn mx),
                h\<lparr>cells := (cells h)(g \<mapsto> of_int (exact_lcg s))\<rparr>)"
proof -
  have step: "lcg_step (of_int s) = of_int (exact_lcg s)"
    using assms(2,3) by (rule lcg_step_exact_lcg)
  have "0 \<le> exact_lcg s" "exact_lcg s < 2147483648" by (rule exact_lcg_range)+
  then have "scale (of_int (exact_lcg s)) (of_int mn) (of_int mx)
      = of_int (exact_value (exact_lcg s) mn mx)"
    using assms(4,5,6) by (rule scale_exact)
  with call_live [OF assms(1), of "of_int mn" "of_int mx"] step show ?thesis by simp
qed

theorem state_updated_before_value_witness:
  "cells (snd (seededRandom (of_int 1) empty_heap)) 0 = Some (of_int 1)
   \<and> (0::int) \<le> 1 \<and> (1::int) * 1664525 + 1013904223 \<le> 2 ^ 53
   \<and> \<bar>1::int\<bar> < 2 ^ 53 \<and> \<bar>10::int\<bar> < 2 ^ 53 \<and> exact_lcg 1 * \<bar>10 - 1\<bar> < 2 ^ 53
   \<and> call 0 (of_int 1) (of_int 10) (snd (seededRandom (of_int 1) empty_heap)) =
        Inr (of_int (exact_value (exact_lcg 1) 1 10),
             (snd (seededRandom (of_int 1) empty_heap))
               \<lparr>cells := (cells (snd (seededRandom (of_int 1) empty_heap)))(0 \<mapsto> of_int (exact_lcg 1))\<rparr>)
   \<and> exact_lcg 1 = 1015568748 \<and> exact_value (exact_lcg 1) 1 10 = 5"
proof -
  have live: "cells (snd (seededRandom (of_int 1) empty_heap)) 0 = Some (of_int 1)"
    by (simp add: seededRandom_def empty_heap_def)
  have ex: "exact_lcg 1 = 1015568748" "exact_value 1015568748 1 10 = 5"
    by code_simp+
  have dom: "(0::int) \<le> 1" "(1::int) * 1664525 + 1013904223 \<le> 2 ^ 53"
    "\<bar>1::int\<bar> < 2 ^ 53" "\<bar>10::int\<bar> < 2 ^ 53" "exact_lcg 1 * \<bar>10 - 1\<bar> < 2 ^ 53"
    by (simp_all add: ex)
  from state_updated_before_value [OF live dom] live dom ex show ?thesis by simp
qed

text \<open>
  C4 as stated, on each draw call, fails outside this domain. The scaling is computed in
  binary64: with seed 0 the new state is 1013904223, and for the call
  \<open>(0, 140737488355364)\<close> the product \<open>(1013904223 / 2147483648) * 140737488355364\<close> lies
  \<open>2^-29\<close> below the integer 66447227158545 and is rounded up to it, so the code returns
  66447227158545 where the formula gives 66447227158544. And the operator \<^verbatim>\<open>%\<close> keeps the
  sign of its left operand: from the state \<open>-1000\<close> the code stores \<open>-650620777\<close> where
  \<open>mod 2147483648\<close> gives 1496862871.
\<close>

theorem value_and_state_differ_from_exact_formulas:
  "returned (call (fst (seededRandom 0 empty_heap)) 0 140737488355364
     (snd (seededRandom 0 empty_heap))) = Inr 66447227158545
   \<and> exact_value (exact_lcg 0) 0 140737488355364 = 66447227158544
   \<and> snd (draw (- 1000) 1 10) = - 650620777
   \<and> exact_lcg (- 1000) = 1496862871"
  by code_simp

subsection \<open>C5: bounds with max not above min\<close>

text \<open>
  C5, as amended. No error is raised for \<open>mx \<le> mn\<close>: on a generator whose cell holds an
  integer \<open>0 \<le> s < 2^53\<close>, a call with integer bounds below \<open>2^53\<close> in absolute value
  and \<open>mx \<le> mn\<close> returns an integer \<open>v\<close> with \<open>mx \<le> v \<le> mn\<close> (so \<open>v = mn\<close> when the
  bounds are equal) and stores the next state.
\<close>

theorem degenerate_range_returns:
  assumes "cells h g = Some (of_int s)" and "0 \<le> s" and "s < 2 ^ 53"
    and "\<bar>mn\<bar> < 2 ^ 53" and "\<bar>mx\<bar> < 2 ^ 53" and "mx \<le> mn"
  shows "\<exists>v. call g (of_int mn) (of_int mx) h =
               Inr (of_int v, h\<lparr>cells := (cells h)(g \<mapsto> lcg_step (of_int s))\<rparr>)
           \<and> mx \<le> v \<and> v \<le> mn"
proof -
  from lcg_step_int [of s] assms(2)
  obtain t where t: "lcg_step (of_int s) = of_int t" "\<bar>t\<bar> < 2147483648" "0 \<le> t" by blast
  then have t': "0 \<le> t" "t < 2147483648" by simp_all
  define f where "f = \<lfloor>fl (of_int t / 2147483648 * fl (of_int (mx - mn)))\<rfloor>"
  have "scale (of_int t) (of_int mn) (of_int mx) = of_int (f + mn)"
    unfolding f_def using t' assms(4,5) by (rule scale_int)
  with call_live [OF assms(1), of "of_int mn" "of_int mx"]
  have "call g (of_int mn) (of_int mx) h =
      Inr (of_int (f + mn), h\<lparr>cells := (cells h)(g \<mapsto> lcg_step (of_int s))\<rparr>)"
    by (simp add: t(1))
  moreover from scaled_floor_range(2) [OF t' assms(6)] have "mx \<le> f + mn" "f + mn \<le> mn"
    by (simp_all add: f_def)
  ultimately show ?thesis by blast
qed

theorem degenerate_range_returns_witness:
  "cells \<lparr>cells = [0 \<mapsto> of_int 1], fresh = 1\<rparr> 0 = Some (of_int 1)
   \<and> (0::int) \<le> 1 \<and> (1::int) < 2 ^ 53 \<and> \<bar>10::int\<bar> < 2 ^ 53 \<and> \<bar>1::int\<bar> < 2 ^ 53 \<and> (1::int) \<le> 10
   \<and> (\<exists>v. call 0 (of_int 10) (of_int 1) \<lparr>cells = [0 \<mapsto> of_int 1], fresh = 1\<rparr> =
               Inr (of_int v, \<lparr>cells = [0 \<mapsto> of_int 1], fresh = 1\<rparr>
                     \<lparr>cells := (cells \<lparr>cells = [0 \<mapsto> of_int 1], fresh = 1\<rparr>)(0 \<mapsto> lcg_step (of_int 1))\<rparr>)
           \<and> 1 \<le> v \<and> v \<le> 10)"
proof -
  have live: "cells \<lparr>cells = [0 \<mapsto> of_int 1], fresh = 1\<rparr> 0 = Some (of_int 1 :: rat)" by simp
  have r: "(0::int) \<le> 1" "(1::int) < 2 ^ 53" "\<bar>10::int\<bar> < 2 ^ 53" "\<bar>1::int\<bar> < 2 ^ 53" "(1::int) \<le> 10"
    by simp_all
  from degenerate_range_returns [OF live r] live r show ?thesis by blast
qed

text \<open>
  C5 as stated fails: with seed 1 the first call with \<open>(3, 3)\<close> returns 3, and the first
  call with \<open>(10, 1)\<close> returns 5; neither is \<open>Inl InvalidRangeError\<close>.
\<close>

theorem degenerate_range_no_error:
  "returned (call (fst (seededRandom 1 empty_heap)) 3 3 (snd (seededRandom 1 empty_heap))) = Inr 3
   \<and> returned (call (fst (seededRandom 1 empty_heap)) 10 1 (snd (seededRandom 1 empty_heap))) = Inr 5"
  by code_simp

subsection \<open>C6: exactness of the state update\<close>

text \<open>
  C6, as amended. For every integer seed with \<open>0 \<le> seed\<close> and
  \<open>seed * 1664525 + 1013904223 \<le> 2^53\<close>, that is for the seeds from 0 to 5411272429, the
  state after \<open>n\<close> draws is the \<open>n\<close>-th element of the exact sequence
  \<open>x \<mapsto> (x * 1664525 + 1013904223) mod 2147483648\<close>, and at this state the product and
  the sum of line 8 are computed without rounding.
\<close>

theorem exact_states:
  assumes "0 \<le> seed" and "seed * 1664525 + 1013904223 \<le> 2 ^ 53"
  shows "(lcg_step ^^ n) (of_int seed) = of_int ((exact_lcg ^^ n) seed)
       \<and> num_mul (of_int ((exact_lcg ^^ n) seed)) 1664525 = of_int ((exact_lcg ^^ n) seed * 1664525)
       \<and> num_add (of_int ((exact_lcg ^^ n) seed * 1664525)) 1013904223
           = of_int ((exact_lcg ^^ n) seed * 1664525 + 1013904223)"
proof -
  have inv: "0 \<le> (exact_lcg ^^ k) seed \<and> (exact_lcg ^^ k) seed * 1664525 + 1013904223 \<le> 2 ^ 53"
    for k
  proof (cases k)
    case 0
    with assms show ?thesis by simp
  next
    case (Suc j)
    have "0 \<le> exact_lcg ((exact_lcg ^^ j) seed)" "exact_lcg ((exact_lcg ^^ j) seed) < 2147483648"
      by (rule exact_lcg_range)+
    with Suc show ?thesis by simp
  qed
  have st: "(lcg_step ^^ k) (of_int seed) = of_int ((exact_lcg ^^ k) seed)" for k
  proof (induction k)
    case 0
    show ?case by simp
  next
    case (Suc k)
    have "lcg_step (of_int ((exact_lcg ^^ k) seed)) = of_int (exact_lcg ((exact_lcg ^^ k) seed))"
      using inv [of k] by (intro lcg_step_exact_lcg) simp_all
    with Suc.IH show ?case by simp
  qed
  define s where "s = (exact_lcg ^^ n) seed"
  have s: "0 \<le> s" "s * 1664525 + 1013904223 \<le> 2 ^ 53" using inv [of n] by (simp_all add: s_def)
  then have "\<bar>s * 1664525\<bar> \<le> 2 ^ 53" by simp
  then have m: "fl (of_int (s * 1664525)) = of_int (s * 1664525)" by (rule fl_of_int_exact)
  from s have "\<bar>s * 1664525 + 1013904223\<bar> \<le> 2 ^ 53" by simp
  then have a: "fl (of_int (s * 1664525 + 1013904223)) = of_int (s * 1664525 + 1013904223)"
    by (rule fl_of_int_exact)
  from m a have "num_mul (of_int s) 1664525 = of_int (s * 1664525)"
    "num_add (of_int (s * 1664525)) 1013904223 = of_int (s * 1664525 + 1013904223)"
    by (simp_all add: num_mul_def num_add_def)
  with st [of n] show ?thesis by (simp add: s_def)
qed

theorem exact_states_witness:
  "(0::int) \<le> 1 \<and> (1::int) * 1664525 + 1013904223 \<le> 2 ^ 53
   \<and> (lcg_step ^^ 2) (of_int 1) = of_int ((exact_lcg ^^ 2) 1)
   \<and> num_mul (of_int ((exact_lcg ^^ 2) 1)) 1664525 = of_int ((exact_lcg ^^ 2) 1 * 1664525)
   \<and> num_add (of_int ((exact_lcg ^^ 2) 1 * 1664525)) 1013904223
           = of_int ((exact_lcg ^^ 2) 1 * 1664525 + 1013904223)"
  using exact_states [of 1 2] by simp

text \<open>
  C6 as stated fails at the largest safe integer, \<open>2^53 - 1\<close>: the product with 1664525
  needs 74 bits and is rounded to a multiple of \<open>2^21\<close>, and the state that the code
  stores, 1010827264, is not the exact 1012239698.
\<close>

theorem state_update_rounds:
  "num_mul 9007199254740991 1664525 = 14992708339497747611648
   \<and> 9007199254740991 * 1664525 = (14992708339497748044275 :: rat)
   \<and> lcg_step 9007199254740991 = 1010827264
   \<and> exact_lcg 9007199254740991 = 1012239698"
  by code_simp

subsection \<open>C7: the range up to the modulus\<close>

text \<open>
  C7. For every integer seed below \<open>2^53\<close> in absolute value and after any number of
  earlier draws, the call with \<open>min = 0\<close> and \<open>max = 2147483648\<close> returns a value
  different from, and below, \<open>2147483648\<close>: division and multiplication by \<open>2^31\<close> are
  exact, and the value is the new state itself.
\<close>

theorem modulus_range_excludes_max:
  assumes "\<bar>seed\<bar> < 2 ^ 53"
  shows "fst (draw ((lcg_step ^^ n) (of_int seed)) 0 2147483648) \<noteq> 2147483648
       \<and> fst (draw ((lcg_step ^^ n) (of_int seed)) 0 2147483648) < 2147483648"
proof -
  from lcg_iterate_int [of n seed]
  obtain s where s: "(lcg_step ^^ n) (of_int seed) = of_int s" by blast
  from lcg_step_int [of s]
  obtain t where t: "lcg_step (of_int s) = of_int t" "\<bar>t\<bar> < 2147483648" by blast
  from t(2) have "scale (of_int t) 0 2147483648 = of_int t" by (rule scale_modulus)
  then have "fst (draw ((lcg_step ^^ n) (of_int seed)) 0 2147483648) = of_int t"
    by (simp only: draw_eq s t(1) fst_conv)
  moreover have "(of_int t :: rat) < of_int 2147483648" using t(2) by (simp only: of_int_less_iff)
  ultimately show ?thesis by simp
qed

theorem modulus_range_excludes_max_witness:
  "\<bar>- 1000 :: int\<bar> < 2 ^ 53
   \<and> fst (draw ((lcg_step ^^ 1) (of_int (- 1000))) 0 2147483648) \<noteq> 2147483648
   \<and> fst (draw ((lcg_step ^^ 1) (of_int (- 1000))) 0 2147483648) < 2147483648"
  using modulus_range_excludes_max [of "- 1000" 1] by simp

subsection \<open>C8: independence of the instances\<close>

text \<open>
  C8. A call on the generator \<open>a\<close> returns and changes nothing but the cell of \<open>a\<close>: the
  cell of any other generator \<open>b\<close> keeps its content, also when it holds the same state as
  the cell of \<open>a\<close>, every other address is untouched and no cell is allocated.
\<close>

theorem draw_leaves_other_generators:
  assumes "cells h a = Some sa" and "cells h b = Some sb" and "a \<noteq> b"
  shows "\<exists>v h'. call a mn mx h = Inr (v, h') \<and> cells h' b = Some sb
            \<and> (\<forall>c. c \<noteq> a \<longrightarrow> cells h' c = cells h c) \<and> fresh h' = fresh h"
proof -
  define h' where "h' = h\<lparr>cells := (cells h)(a \<mapsto> lcg_step sa)\<rparr>"
  have "call a mn mx h = Inr (scale (lcg_step sa) mn mx, h')"
    unfolding h'_def using assms(1) by (rule call_live)
  moreover have "cells h' b = Some sb" using assms(2,3) by (simp add: h'_def)
  moreover have "\<forall>c. c \<noteq> a \<longrightarrow> cells h' c = cells h c" by (simp add: h'_def)
  moreover have "fresh h' = fresh h" by (simp add: h'_def)
  ultimately show ?thesis by blast
qed

theorem draw_leaves_other_generators_witness:
  "cells \<lparr>cells = [0 \<mapsto> 1, 1 \<mapsto> 1], fresh = 2\<rparr> 0 = Some 1
   \<and> cells \<lparr>cells = [0 \<mapsto> 1, 1 \<mapsto> 1], fresh = 2\<rparr> 1 = Some 1 \<and> (0::nat) \<noteq> 1
   \<and> (\<exists>v h'. call 0 1 10 \<lparr>cells = [0 \<mapsto> 1, 1 \<mapsto> 1], fresh = 2\<rparr> = Inr (v, h')
         \<and> cells h' 1 = Some 1
         \<and> (\<forall>c. c \<noteq> 0 \<longrightarrow> cells h' c = cells \<lparr>cells = [0 \<mapsto> 1, 1 \<mapsto> 1], fresh = 2\<rparr> c)
         \<and> fresh h' = fresh \<lparr>cells = [0 \<mapsto> 1, 1 \<mapsto> 1], fresh = 2\<rparr>)"
proof -
  have a: "cells \<lparr>cells = [0 \<mapsto> 1, 1 \<mapsto> 1], fresh = 2\<rparr> 0 = Some (1::rat)" by simp
  have b: "cells \<lparr>cells = [0 \<mapsto> 1, 1 \<mapsto> 1], fresh = 2\<rparr> 1 = Some (1::rat)" by simp
  have c: "(0::nat) \<noteq> 1" by simp
  from draw_leaves_other_generators [OF a b c, of 1 10] a b c show ?thesis by blast
qed

subsection \<open>C9: equal bounds\<close>



subsection \<open>C10: the state does not depend on the bounds\<close>

text \<open>
  C10. After \<open>n\<close> calls the cell of a generator holds \<open>(lcg_step ^^ n) seed\<close>, whatever
  the bounds of the calls were: two generators that hold the same seed and are given two
  lists of calls of the same length, with any bounds, end in the same state.
\<close>

theorem state_independent_of_bounds:
  assumes "cells h a = Some seed" and "cells h b = Some seed" and "a \<noteq> b"
    and "length as = length bs"
  shows "\<exists>vs ws h1 h2. run a as h = Inr (vs, h1) \<and> run b bs h1 = Inr (ws, h2)
            \<and> cells h2 a = Some ((lcg_step ^^ length as) seed)
            \<and> cells h2 b = Some ((lcg_step ^^ length as) seed)"
proof -
  define h1 where "h1 = h\<lparr>cells := (cells h)(a \<mapsto> (lcg_step ^^ length as) seed)\<rparr>"
  define h2 where "h2 = h1\<lparr>cells := (cells h1)(b \<mapsto> (lcg_step ^^ length bs) seed)\<rparr>"
  have ra: "run a as h = Inr (outputs seed as, h1)"
    unfolding h1_def using assms(1) by (rule run_live)
  have "cells h1 b = Some seed" using assms(2,3) by (simp add: h1_def)
  then have rb: "run b bs h1 = Inr (outputs seed bs, h2)" unfolding h2_def by (rule run_live)
  have "cells h2 a = Some ((lcg_step ^^ length as) seed)" using assms(3) by (simp add: h2_def h1_def)
  moreover have "cells h2 b = Some ((lcg_step ^^ length as) seed)"
    using assms(4) by (simp add: h2_def)
  ultimately show ?thesis using ra rb by blast
qed

theorem state_independent_of_bounds_witness:
  "cells \<lparr>cells = [0 \<mapsto> 1, 1 \<mapsto> 1], fresh = 2\<rparr> 0 = Some 1
   \<and> cells \<lparr>cells = [0 \<mapsto> 1, 1 \<mapsto> 1], fresh = 2\<rparr> 1 = Some 1 \<and> (0::nat) \<noteq> 1
   \<and> length [(1::rat, 10::rat), (1, 10)] = length [(0::rat, 100::rat), (- 5, 5)]
   \<and> (\<exists>vs ws h1 h2. run 0 [(1, 10), (1, 10)] \<lparr>cells = [0 \<mapsto> 1, 1 \<mapsto> 1], fresh = 2\<rparr> = Inr (vs, h1)
         \<and> run 1 [(0, 100), (- 5, 5)] h1 = Inr (ws, h2)
         \<and> cells h2 0 = Some ((lcg_step ^^ length [(1::rat, 10::rat), (1, 10)]) 1)
         \<and> cells h2 1 = Some ((lcg_step ^^ length [(1::rat, 10::rat), (1, 10)]) 1))"
proof -
  have a: "cells \<lparr>cells = [0 \<mapsto> 1, 1 \<mapsto> 1], fresh = 2\<rparr> 0 = Some (1::rat)" by simp
  have b: "cells \<lparr>cells = [0 \<mapsto> 1, 1 \<mapsto> 1], fresh = 2\<rparr> 1 = Some (1::rat)" by simp
  have c: "(0::nat) \<noteq> 1" by simp
  have d: "length [(1::rat, 10::rat), (1, 10)] = length [(0::rat, 100::rat), (- 5, 5)]" by simp
  from state_independent_of_bounds [OF a b c d] a b c d show ?thesis by blast
qed

end
